theory Spec2Isabelle
  imports Main "HOL-Library.Word" "HOL-Library.List_Lexorder" "HOL-Library.Multiset"
begin

section \<open>The validator health manager of consensus/tbft/types/heartbeat.go\<close>

subsection \<open>Data model\<close>

type_synonym byte = "8 word"

text \<open>\<^verbatim>\<open>p2p.ID\<close> is a Go string.\<close>

type_synonym ID = string

text \<open>
  The manager holds its records as \<^verbatim>\<open>*Health\<close> pointers, in the map \<^verbatim>\<open>Work\<close>, in the
  slice \<^verbatim>\<open>Back\<close> and inside switch requests, and mutates the objects through them. The
  objects therefore live in a store, a pointer is an address of the store or nil
  (\<open>None\<close>), and dereferencing nil panics. A Go pointer that is not nil always refers
  to a live object, so the store is total on addresses.
\<close>

type_synonym addr = nat
type_synonym ptr = "addr option"

datatype panic = NilDereference | MarshalError

text \<open>
  Modelled from the spec: the struct \<^verbatim>\<open>Validator\<close> is declared in a file of the package
  that is not among the sources; the spec gives it as the immutable tuple of address,
  voting power and public key. The code here reads only \<^verbatim>\<open>Val.Address\<close>.
\<close>

record Validator =
  Address :: "byte list"
  VotingPower :: int
  PubKey :: "byte list"

definition HealthOut :: int where
  "HealthOut = 60 * 10"

definition StateUnused :: int where
  "StateUnused = 0"

definition StateSwitching :: int where
  "StateSwitching = 1"

definition StateUsed :: int where
  "StateUsed = 2"

definition StateRemoved :: int where
  "StateRemoved = 3"

record Health =
  ID :: ID
  IP :: string
  Port :: nat
  Tick :: "32 word"
  State :: int
  Val :: "Validator option"

type_synonym store = "addr \<Rightarrow> Health"

text \<open>The field \<^verbatim>\<open>from\<close> is written \<open>from'\<close>: 0 is a local request, 1 a remote outcome.\<close>

record SwitchValidator =
  Remove :: ptr
  Add :: ptr
  Resion :: string
  from' :: int

text \<open>
  \<^verbatim>\<open>HealthMgr\<close>. The field \<^verbatim>\<open>Remove\<close> is written \<open>Retired\<close> (no function of the file
  reads or writes it), \<open>healthTick\<close> says whether the ticker pointer is set, and
  \<open>heap\<close> is the store of the \<^verbatim>\<open>Health\<close> objects. The channel \<^verbatim>\<open>SwitchChan\<close> is not
  state of the model: the requests handed to \<^verbatim>\<open>go h.Switch(...)\<close> are returned by the
  function that posts them.
\<close>

record HealthMgr =
  Sum :: "64 word"
  Work :: "ID \<rightharpoonup> ptr"
  Back :: "ptr list"
  Retired :: "ptr list"
  healthTick :: bool
  heap :: store

definition NewHealthMgr :: "store \<Rightarrow> HealthMgr" where
  "NewHealthMgr m =
     \<lparr>Sum = 0, Work = Map.empty, Back = [], Retired = [], healthTick = False, heap = m\<rparr>"

definition setState :: "store \<Rightarrow> addr \<Rightarrow> int \<Rightarrow> store" where
  "setState m a s = m(a := (m a)\<lparr>State := s\<rparr>)"

subsection \<open>Update\<close>

text \<open>
  \<^verbatim>\<open>if v,ok := h.Work[id]; ok { val := atomic.LoadInt32(&v.Tick); atomic.AddInt32(&v.Tick,-val) }\<close>
  The load and the add are two atomic operations, and the function takes no lock:
  other goroutines (the ticker, other callers of \<^verbatim>\<open>Update\<close>) can run between them.
  \<open>UpdateLoad\<close> is the lookup and the load, which change nothing; \<open>UpdateAdd\<close> is the
  add, the addition being that of \<^verbatim>\<open>int32\<close>, which wraps. \<open>Update\<close> is a call that
  nothing interrupts: the add follows the load at once.
\<close>

definition UpdateLoad :: "HealthMgr \<Rightarrow> ID \<Rightarrow> panic + (addr \<times> 32 word) option" where
  "UpdateLoad h i =
     (case Work h i of
        None \<Rightarrow> Inr None
      | Some None \<Rightarrow> Inl NilDereference
      | Some (Some a) \<Rightarrow> Inr (Some (a, Tick (heap h a))))"

definition UpdateAdd :: "HealthMgr \<Rightarrow> addr \<Rightarrow> 32 word \<Rightarrow> HealthMgr" where
  "UpdateAdd h a val = h\<lparr>heap := (heap h)(a := (heap h a)\<lparr>Tick := Tick (heap h a) + (- val)\<rparr>)\<rparr>"

text \<open>The rest of a call after its load: nothing when the peer was not in the map.\<close>

fun addLoaded :: "HealthMgr \<Rightarrow> (addr \<times> 32 word) option \<Rightarrow> HealthMgr" where
  "addLoaded h None = h"
| "addLoaded h (Some (a, val)) = UpdateAdd h a val"

definition Update :: "HealthMgr \<Rightarrow> ID \<Rightarrow> panic + HealthMgr" where
  "Update h i = (case UpdateLoad h i of Inl e \<Rightarrow> Inl e | Inr l \<Rightarrow> Inr (addLoaded h l))"

text \<open>
  Two calls of \<^verbatim>\<open>Update\<close>, for \<open>i\<close> and for \<open>j\<close>, that overlap: both have loaded before
  either adds.
\<close>

definition UpdateOverlapped :: "HealthMgr \<Rightarrow> ID \<Rightarrow> ID \<Rightarrow> panic + HealthMgr" where
  "UpdateOverlapped h i j =
     (case UpdateLoad h i of
        Inl e \<Rightarrow> Inl e
      | Inr l1 \<Rightarrow>
          (case UpdateLoad h j of
             Inl e \<Rightarrow> Inl e
           | Inr l2 \<Rightarrow> Inr (addLoaded (addLoaded h l1) l2)))"

subsection \<open>The backup pool: SetBackValidators, OnStart and the picker\<close>

text \<open>
  \<^verbatim>\<open>bytes.Compare\<close> of the Go library compares two byte slices lexicographically, bytes
  read as unsigned: the order of \<open>byte list\<close>.
\<close>

definition bytes_Compare :: "byte list \<Rightarrow> byte list \<Rightarrow> int" where
  "bytes_Compare a b = (if a < b then - 1 else if a = b then 0 else 1)"

text \<open>\<^verbatim>\<open>h.Val.Address\<close>: it panics on a nil record and on a record whose \<^verbatim>\<open>Val\<close> is nil.\<close>

definition valAddress :: "store \<Rightarrow> ptr \<Rightarrow> panic + byte list" where
  "valAddress m p =
     (case p of
        None \<Rightarrow> Inl NilDereference
      | Some a \<Rightarrow> (case Val (m a) of None \<Rightarrow> Inl NilDereference | Some v \<Rightarrow> Inr (Address v)))"

text \<open>
  \<^verbatim>\<open>HealthsByAddress.Less\<close>, on the two records rather than on their indices:
  \<^verbatim>\<open>bytes.Compare(hs[i].Val.Address, hs[j].Val.Address) == -1\<close>.
\<close>

definition Less :: "store \<Rightarrow> ptr \<Rightarrow> ptr \<Rightarrow> panic + bool" where
  "Less m p q =
     (case valAddress m p of
        Inl e \<Rightarrow> Inl e
      | Inr x \<Rightarrow> (case valAddress m q of Inl e \<Rightarrow> Inl e | Inr y \<Rightarrow> Inr (bytes_Compare x y = - 1)))"

text \<open>The address \<^verbatim>\<open>Less\<close> compares, for a record that has one (used in proofs only).\<close>

definition addrKey :: "store \<Rightarrow> ptr \<Rightarrow> byte list" where
  "addrKey m p = (case valAddress m p of Inl _ \<Rightarrow> [] | Inr x \<Rightarrow> x)"

text \<open>
  \<^verbatim>\<open>sort.Sort\<close> belongs to the Go library. On a short slice (of up to 6 elements in
  every version of the library, of up to 12 in the later ones) it is an insertion
  sort: each element in turn is swapped leftwards for as long as \<^verbatim>\<open>Less\<close> puts it before
  its left neighbour. \<open>sink\<close> is that inner loop, on the part already sorted with its
  last element first. On longer slices the library sorts by other means, and records
  of equal address may come out in another order; what is proved below of the result
  (it is ordered, and a rearrangement of the input) does not depend on that. The
  first comparison that meets a nil record, or a record without validator, panics.
\<close>

fun sink :: "store \<Rightarrow> ptr \<Rightarrow> ptr list \<Rightarrow> panic + ptr list" where
  "sink m x [] = Inr [x]"
| "sink m x (y # ys) =
     (case Less m x y of
        Inl e \<Rightarrow> Inl e
      | Inr True \<Rightarrow> (case sink m x ys of Inl e \<Rightarrow> Inl e | Inr zs \<Rightarrow> Inr (y # zs))
      | Inr False \<Rightarrow> Inr (x # y # ys))"

fun insertionSort :: "store \<Rightarrow> ptr list \<Rightarrow> ptr list \<Rightarrow> panic + ptr list" where
  "insertionSort m pre [] = Inr (rev pre)"
| "insertionSort m pre (x # xs) =
     (case sink m x pre of Inl e \<Rightarrow> Inl e | Inr pre' \<Rightarrow> insertionSort m pre' xs)"

definition sort_Sort :: "store \<Rightarrow> ptr list \<Rightarrow> panic + ptr list" where
  "sort_Sort m hs = insertionSort m [] hs"

text \<open>\<^verbatim>\<open>h.Back = hh; sort.Sort(HealthsByAddress(h.Back))\<close>\<close>

definition SetBackValidators :: "HealthMgr \<Rightarrow> ptr list \<Rightarrow> panic + HealthMgr" where
  "SetBackValidators h hh =
     (case sort_Sort (heap h) hh of Inl e \<Rightarrow> Inl e | Inr hs \<Rightarrow> Inr (h\<lparr>Back := hs\<rparr>))"

text \<open>
  \<^verbatim>\<open>OnStart\<close> creates the ticker and starts the goroutine when there is no ticker yet,
  and returns the nil error either way. The goroutine's three inputs are the events of
  \<open>fire\<close> below.
\<close>

definition OnStart :: "HealthMgr \<Rightarrow> HealthMgr" where
  "OnStart h = (if \<not> healthTick h then h\<lparr>healthTick := True\<rparr> else h)"

text \<open>
  The loop of \<^verbatim>\<open>pickUnuseValidator\<close> over \<^verbatim>\<open>h.Back\<close>: the first record whose state is
  \<^verbatim>\<open>StateUnused\<close> is set to \<^verbatim>\<open>StateSwitching\<close> and returned; nil when there is none.
\<close>

fun pickLoop :: "store \<Rightarrow> ptr list \<Rightarrow> panic + ptr \<times> store" where
  "pickLoop m [] = Inr (None, m)"
| "pickLoop m (None # vs) = Inl NilDereference"
| "pickLoop m (Some a # vs) =
     (if State (m a) = StateUnused then Inr (Some a, setState m a StateSwitching)
      else pickLoop m vs)"

definition pickUnuseValidator :: "HealthMgr \<Rightarrow> panic + ptr \<times> HealthMgr" where
  "pickUnuseValidator h =
     (case pickLoop (heap h) (Back h) of
        Inl e \<Rightarrow> Inl e
      | Inr (v, m) \<Rightarrow> Inr (v, h\<lparr>heap := m\<rparr>))"

text \<open>\<open>n\<close> calls of \<^verbatim>\<open>pickUnuseValidator\<close> one after the other, and what each returned.\<close>

fun pickRepeat :: "nat \<Rightarrow> HealthMgr \<Rightarrow> panic + ptr list \<times> HealthMgr" where
  "pickRepeat 0 h = Inr ([], h)"
| "pickRepeat (Suc n) h =
     (case pickUnuseValidator h of
        Inl e \<Rightarrow> Inl e
      | Inr (v, h') \<Rightarrow>
          (case pickRepeat n h' of Inl e \<Rightarrow> Inl e | Inr (vs, h'') \<Rightarrow> Inr (v # vs, h'')))"

text \<open>The records of a pool, in its order (the entries that are not nil).\<close>

fun records :: "ptr list \<Rightarrow> addr list" where
  "records [] = []"
| "records (None # vs) = records vs"
| "records (Some a # vs) = a # records vs"

text \<open>
  A pool is address-sorted when it has no nil entry and \<^verbatim>\<open>Less\<close> puts no record before
  an earlier one (which takes every record of a pool of two or more to have a
  validator).
\<close>

definition addressSorted :: "store \<Rightarrow> ptr list \<Rightarrow> bool" where
  "addressSorted m vs = (None \<notin> set vs \<and> sorted_wrt (\<lambda>p q. Less m q p = Inr False) vs)"

subsection \<open>The tick: work and checkSwitchValidator\<close>

text \<open>
  \<^verbatim>\<open>checkSwitchValidator\<close>. The request it hands to \<^verbatim>\<open>go h.Switch(...)\<close> is returned in
  a list (empty when it posts none); whether the non-blocking send of \<^verbatim>\<open>Switch\<close> finds a
  receiver is outside the model. The comparison with \<^verbatim>\<open>HealthOut\<close> is that of \<^verbatim>\<open>int32\<close>.
\<close>

definition checkSwitchValidator ::
  "HealthMgr \<Rightarrow> ptr \<Rightarrow> panic + SwitchValidator list \<times> HealthMgr" where
  "checkSwitchValidator h v =
     (case v of
        None \<Rightarrow> Inl NilDereference
      | Some a \<Rightarrow>
          (let val = Tick (heap h a)
           in if HealthOut < sint val \<and> State (heap h a) = StateUsed then
                (case pickUnuseValidator h of
                   Inl e \<Rightarrow> Inl e
                 | Inr (back, h') \<Rightarrow>
                     Inr ([\<lparr>Remove = v, Add = back, Resion = ''Switch'', from' = 0\<rparr>],
                          h'\<lparr>heap := setState (heap h') a StateSwitching\<rparr>))
              else Inr ([], h)))"

text \<open>
  \<^verbatim>\<open>work\<close> ranges over the map \<^verbatim>\<open>h.Work\<close>. Go visits every key of a map once, in an order
  it does not fix: the order is the argument \<open>ks\<close>. A key that is not in the map is
  passed over.
\<close>

fun work :: "HealthMgr \<Rightarrow> ID list \<Rightarrow> panic + SwitchValidator list \<times> HealthMgr" where
  "work h [] = Inr ([], h)"
| "work h (k # ks) =
     (case Work h k of
        None \<Rightarrow> work h ks
      | Some None \<Rightarrow> Inl NilDereference
      | Some (Some a) \<Rightarrow>
          (let h1 = (if State (heap h a) = StateUsed
                     then h\<lparr>heap := (heap h)(a := (heap h a)\<lparr>Tick := Tick (heap h a) + 1\<rparr>)\<rparr>
                     else h)
           in case checkSwitchValidator h1 (Some a) of
                Inl e \<Rightarrow> Inl e
              | Inr (out, h2) \<Rightarrow>
                  (case work h2 ks of
                     Inl e \<Rightarrow> Inl e
                   | Inr (outs, h3) \<Rightarrow> Inr (out @ outs, h3))))"

subsection \<open>switchResult\<close>

text \<open>
  \<^verbatim>\<open>Health.String\<close> is called for the log line only; it reads \<^verbatim>\<open>h.ID\<close> and
  \<^verbatim>\<open>h.Val.Address\<close>, so it panics on a nil record and on a nil validator. Only that is
  kept of it.
\<close>

definition Health_String :: "store \<Rightarrow> ptr \<Rightarrow> panic + unit" where
  "Health_String m p = (case valAddress m p of Inl e \<Rightarrow> Inl e | Inr _ \<Rightarrow> Inr ())"

text \<open>
  The loop over \<^verbatim>\<open>h.Back\<close> of the success branch: the first record whose ID is that of
  \<^verbatim>\<open>res.Add\<close> is set to \<^verbatim>\<open>StateUsed\<close>, and the loop breaks. The condition reads
  \<^verbatim>\<open>v.ID\<close> and \<^verbatim>\<open>res.Add.ID\<close> at every round.
\<close>

fun promoteLoop :: "store \<Rightarrow> ptr list \<Rightarrow> ptr \<Rightarrow> panic + store" where
  "promoteLoop m [] add = Inr m"
| "promoteLoop m (None # vs) add = Inl NilDereference"
| "promoteLoop m (Some b # vs) add =
     (case add of
        None \<Rightarrow> Inl NilDereference
      | Some a \<Rightarrow>
          (if ID (m b) = ID (m a) then Inr (setState m b StateUsed)
           else promoteLoop m vs add))"

text \<open>The body of \<^verbatim>\<open>if res.Resion == ""\<close>.\<close>

definition switchSuccess :: "HealthMgr \<Rightarrow> SwitchValidator \<Rightarrow> panic + HealthMgr" where
  "switchSuccess h res =
     (case Remove res of
        None \<Rightarrow> Inl NilDereference
      | Some r \<Rightarrow>
          (case Work h (ID (heap h r)) of
             Some None \<Rightarrow> Inl NilDereference
           | w \<Rightarrow>
               (let m1 = (case w of Some (Some v) \<Rightarrow> setState (heap h) v StateRemoved
                                  | _ \<Rightarrow> heap h)
                in case promoteLoop m1 (Back h) (Add res) of
                     Inl e \<Rightarrow> Inl e
                   | Inr m2 \<Rightarrow> Inr (h\<lparr>heap := m2\<rparr>))))"

text \<open>\<^verbatim>\<open>switchResult\<close>; its argument is a pointer, nil is \<open>None\<close>.\<close>

definition switchResult :: "HealthMgr \<Rightarrow> SwitchValidator option \<Rightarrow> panic + HealthMgr" where
  "switchResult h p =
     (case p of
        None \<Rightarrow> Inl NilDereference
      | Some res \<Rightarrow>
          (if from' res = 1 then
             (case (if Resion res = [] then switchSuccess h res else Inr h) of
                Inl e \<Rightarrow> Inl e
              | Inr h' \<Rightarrow>
                  (case Health_String (heap h') (Remove res) of
                     Inl e \<Rightarrow> Inl e
                   | Inr _ \<Rightarrow>
                       (case Health_String (heap h') (Add res) of
                          Inl e \<Rightarrow> Inl e
                        | Inr _ \<Rightarrow> Inr h')))
           else Inr h))"

subsection \<open>Executions\<close>

text \<open>
  What \<^verbatim>\<open>healthGoroutine\<close> and the callers of \<^verbatim>\<open>Update\<close> do to the manager, one event
  at a time: a tick of the ticker (with the order in which \<^verbatim>\<open>work\<close> visits the map), a
  value received on \<^verbatim>\<open>SwitchChan\<close>, a call of \<^verbatim>\<open>Update\<close> that nothing interrupts, and
  the add of a call of \<^verbatim>\<open>Update\<close> that was interrupted after its load (the record and
  the value are those it loaded, at some earlier moment; the load itself changes
  nothing). \<open>run\<close> collects the requests posted on the way.
\<close>

datatype event =
  TickEv "ID list" | ResultEv "SwitchValidator option" | UpdateEv ID | AddEv addr "32 word"

fun fire :: "HealthMgr \<Rightarrow> event \<Rightarrow> panic + SwitchValidator list \<times> HealthMgr" where
  "fire h (TickEv ks) = work h ks"
| "fire h (ResultEv p) = (case switchResult h p of Inl e \<Rightarrow> Inl e | Inr h' \<Rightarrow> Inr ([], h'))"
| "fire h (UpdateEv i) = (case Update h i of Inl e \<Rightarrow> Inl e | Inr h' \<Rightarrow> Inr ([], h'))"
| "fire h (AddEv a val) = Inr ([], UpdateAdd h a val)"

fun run :: "HealthMgr \<Rightarrow> event list \<Rightarrow> panic + SwitchValidator list \<times> HealthMgr" where
  "run h [] = Inr ([], h)"
| "run h (e # es) =
     (case fire h e of
        Inl x \<Rightarrow> Inl x
      | Inr (out, h') \<Rightarrow>
          (case run h' es of Inl x \<Rightarrow> Inl x | Inr (outs, h'') \<Rightarrow> Inr (out @ outs, h'')))"

text \<open>
  The active set and the pool are separate when no record of the one is a record of
  the other (the spec's invariant that a peer has at most one record).
\<close>

definition separate :: "HealthMgr \<Rightarrow> bool" where
  "separate h = (\<forall>k a. Work h k = Some (Some a) \<longrightarrow> Some a \<notin> set (Back h))"

text \<open>
  What a check, or a whole tick, does to the manager: the active set and the pool
  hold the same pointers, no record becomes Used, a record that is neither Used nor
  Unused is as it was, and every request posted names a record of the active set of
  its own that was Used, is now Switching and has a tick over the threshold.
\<close>

definition ticked :: "HealthMgr \<Rightarrow> SwitchValidator list \<Rightarrow> HealthMgr \<Rightarrow> bool" where
  "ticked h out h' =
     (Work h' = Work h \<and> Back h' = Back h \<and>
      (\<forall>x. State (heap h' x) = StateUsed \<longrightarrow> State (heap h x) = StateUsed) \<and>
      (\<forall>x. State (heap h x) \<noteq> StateUsed \<and> State (heap h x) \<noteq> StateUnused \<longrightarrow>
           heap h' x = heap h x) \<and>
      distinct (map Remove out) \<and>
      (\<forall>sv\<in>set out. \<exists>a. Remove sv = Some a \<and> (\<exists>k. Work h k = Some (Some a)) \<and>
           State (heap h a) = StateUsed \<and> State (heap h' a) = StateSwitching \<and>
           HealthOut < sint (Tick (heap h' a))))"

subsection \<open>Heartbeat\<close>









subsection \<open>Concrete managers\<close>

text \<open>
  The managers of the spec's scenarios, for the closed theorems below: a record with a
  one-byte validator address, a store holding the records of a list at the addresses
  0, 1, 2, ..., and a manager over such a store.
\<close>

definition health :: "ID \<Rightarrow> 32 word \<Rightarrow> int \<Rightarrow> byte \<Rightarrow> Health" where
  "health i t s b =
     \<lparr>ID = i, IP = ''10.0.0.1'', Port = 30310, Tick = t, State = s,
      Val = Some \<lparr>Address = [b], VotingPower = 1, PubKey = []\<rparr>\<rparr>"

definition storeOf :: "Health list \<Rightarrow> store" where
  "storeOf hs a = (if a < length hs then hs ! a else health [] 0 StateRemoved 0)"

definition manager :: "(ID \<rightharpoonup> ptr) \<Rightarrow> ptr list \<Rightarrow> Health list \<Rightarrow> HealthMgr" where
  "manager w b hs = (NewHealthMgr (storeOf hs))\<lparr>Work := w, Back := b\<rparr>"

text \<open>Scenario 3: A alone in the active set, silent for 600 ticks, and no backup.\<close>

definition noBackup :: HealthMgr where
  "noBackup = manager [''A'' \<mapsto> Some 0] [] [health ''A'' 600 StateUsed 1]"

text \<open>
  Scenarios 1 and 2 when the request for C has been posted: A and B in use, C and the
  candidate D switching, E unused.
\<close>

definition switching :: HealthMgr where
  "switching =
     manager [''A'' \<mapsto> Some 0, ''B'' \<mapsto> Some 1, ''C'' \<mapsto> Some 2] [Some 3, Some 4]
       [health ''A'' 0 StateUsed 1, health ''B'' 0 StateUsed 2,
        health ''C'' 601 StateSwitching 3, health ''D'' 0 StateSwitching 4,
        health ''E'' 0 StateUnused 5]"

text \<open>A pool of three standbys in address order, the second of them already in use.\<close>

definition standby :: HealthMgr where
  "standby =
     manager Map.empty [Some 0, Some 1, Some 2]
       [health ''D'' 0 StateUnused 4, health ''E'' 0 StateUsed 5,
        health ''F'' 0 StateUnused 6]"

text \<open>
  Scenarios 1 and 2 at their 600th second, with B silent as well, for a second less
  than C.
\<close>

definition silent :: HealthMgr where
  "silent =
     manager [''A'' \<mapsto> Some 0, ''B'' \<mapsto> Some 1, ''C'' \<mapsto> Some 2] [Some 3, Some 4]
       [health ''A'' 0 StateUsed 1, health ''B'' 599 StateUsed 2,
        health ''C'' 600 StateUsed 3, health ''D'' 0 StateUnused 4,
        health ''E'' 0 StateUnused 5]"

text \<open>A manager whose pool holds the record of the active set.\<close>

definition shared :: HealthMgr where
  "shared =
     manager [''A'' \<mapsto> Some 0] [Some 0]
       [health ''A'' 600 StateUsed 1, health ''X'' 0 StateRemoved 2]"

text \<open>The coordinator's two answers to the request for C and D.\<close>

definition accepted :: SwitchValidator where
  "accepted = \<lparr>Remove = Some 2, Add = Some 3, Resion = [], from' = 1\<rparr>"

definition rejected :: SwitchValidator where
  "rejected = \<lparr>Remove = Some 2, Add = Some 3, Resion = ''rejected'', from' = 1\<rparr>"

text \<open>
  Two seconds of scenario 2: a tick, the coordinator's refusal, a signal from A, a tick.
\<close>

definition twoTicks :: "event list" where
  "twoTicks =
     [TickEv [''A'', ''B'', ''C''], ResultEv (Some rejected), UpdateEv ''A'',
      TickEv [''C'', ''B'', ''A'']]"

text \<open>An outcome whose outgoing record, E, is not in the active set.\<close>

definition stray :: SwitchValidator where
  "stray = \<lparr>Remove = Some 4, Add = Some 3, Resion = [], from' = 1\<rparr>"

text \<open>The records among the given addresses whose state is \<^verbatim>\<open>StateUsed\<close>.\<close>

definition usedAmong :: "HealthMgr \<Rightarrow> addr list \<Rightarrow> addr list" where
  "usedAmong h as = filter (\<lambda>a. State (heap h a) = StateUsed) as"

section \<open>Properties\<close>

subsection \<open>Auxiliary facts\<close>

lemma ID_setState: "ID (setState m a s x) = ID (m x)"
  by (simp add: setState_def)

lemma Val_setState: "Val (setState m a s x) = Val (m x)"
  by (simp add: setState_def)

lemma valAddress_setState: "valAddress (setState m a s) p = valAddress m p"
  by (simp add: valAddress_def Val_setState split: option.splits)

lemma Health_String_ok: "Val (m a) \<noteq> None \<Longrightarrow> Health_String m (Some a) = Inr ()"
  by (auto simp: Health_String_def valAddress_def)

lemma Health_String_setState: "Health_String (setState m a s) p = Health_String m p"
  by (simp add: Health_String_def valAddress_setState)

text \<open>The loop of the success branch promotes the first record of the pool with the ID.\<close>

lemma promoteLoop_find:
  "None \<notin> set vs \<Longrightarrow>
   promoteLoop m vs (Some a) =
     Inr (case find (\<lambda>b. ID (m b) = ID (m a)) (records vs) of
            None \<Rightarrow> m | Some b \<Rightarrow> setState m b StateUsed)"
proof (induction vs)
  case Nil
  show ?case by simp
next
  case (Cons v vs)
  then obtain b where v: "v = Some b" by (cases v) auto
  with Cons show ?case by simp
qed

text \<open>The store a successful remote outcome leaves, in closed form.\<close>

lemma switchResult_success:
  assumes "from' res = 1" and "Resion res = []"
    and "Remove res = Some r" and "Add res = Some a"
    and "Val (heap h r) \<noteq> None" and "Val (heap h a) \<noteq> None"
    and "None \<notin> set (Back h)" and "Work h (ID (heap h r)) \<noteq> Some None"
  shows "switchResult h (Some res) =
     Inr (h\<lparr>heap :=
        (let m1 = (case Work h (ID (heap h r)) of
                     Some (Some w) \<Rightarrow> setState (heap h) w StateRemoved | _ \<Rightarrow> heap h)
         in case find (\<lambda>b. ID (heap h b) = ID (heap h a)) (records (Back h)) of
              None \<Rightarrow> m1 | Some b \<Rightarrow> setState m1 b StateUsed)\<rparr>)"
proof -
  define m1 where "m1 = (case Work h (ID (heap h r)) of
                     Some (Some w) \<Rightarrow> setState (heap h) w StateRemoved | _ \<Rightarrow> heap h)"
  have ids: "ID (m1 x) = ID (heap h x)" for x
    by (simp add: m1_def ID_setState split: option.splits)
  have str: "Health_String m1 p = Health_String (heap h) p" for p
    by (simp add: m1_def Health_String_setState split: option.splits)
  define m2 where "m2 = (case find (\<lambda>b. ID (heap h b) = ID (heap h a)) (records (Back h)) of
              None \<Rightarrow> m1 | Some b \<Rightarrow> setState m1 b StateUsed)"
  have str2: "Health_String m2 p = Health_String (heap h) p" for p
    by (simp add: m2_def str Health_String_setState split: option.splits)
  have "promoteLoop m1 (Back h) (Some a) = Inr m2"
    using assms(7) by (simp add: promoteLoop_find ids m2_def)
  then have "switchSuccess h res = Inr (h\<lparr>heap := m2\<rparr>)"
    using assms(3,4,8) by (auto simp: switchSuccess_def m1_def split: option.splits)
  then have "switchResult h (Some res) = Inr (h\<lparr>heap := m2\<rparr>)"
    using assms(1,2,3,4,5,6) by (simp add: switchResult_def str2 Health_String_ok)
  then show ?thesis by (simp only: m2_def m1_def Let_def)
qed

text \<open>The picker's loop returns the first unused record of the pool.\<close>

lemma set_records: "set (records vs) = {a. Some a \<in> set vs}"
  by (induction vs rule: records.induct) auto

lemma pickLoop_find:
  "None \<notin> set vs \<Longrightarrow>
   pickLoop m vs =
     Inr (case find (\<lambda>a. State (m a) = StateUnused) (records vs) of
            None \<Rightarrow> (None, m) | Some a \<Rightarrow> (Some a, setState m a StateSwitching))"
proof (induction vs)
  case Nil
  show ?case by simp
next
  case (Cons v vs)
  then obtain b where v: "v = Some b" by (cases v) auto
  with Cons show ?case by simp
qed

lemma Less_setState: "Less (setState m a s) p q = Less m p q"
  by (simp add: Less_def valAddress_setState split: sum.splits)

lemma addressSorted_setState: "addressSorted (setState m a s) vs = addressSorted m vs"
  by (simp add: addressSorted_def Less_setState)

text \<open>In an address-sorted pool, \<^verbatim>\<open>Less\<close> puts no other record with \<open>P\<close> before the first.\<close>

lemma first_is_least:
  assumes "addressSorted m vs" and "find P (records vs) = Some a"
    and "Some b \<in> set vs" and "P b" and "b \<noteq> a"
  shows "Less m (Some b) (Some a) = Inr False"
  using assms
proof (induction vs)
  case Nil
  then show ?case by simp
next
  case (Cons v vs)
  from Cons.prems(1) obtain c where v: "v = Some c"
    by (cases v) (auto simp: addressSorted_def)
  from Cons.prems(1) have tl: "addressSorted m vs"
    by (simp add: addressSorted_def)
  show ?case
  proof (cases "P c")
    case True
    with Cons.prems(2) v have "a = c" by simp
    with Cons.prems(3,5) v have "Some b \<in> set vs" by auto
    with Cons.prems(1) v \<open>a = c\<close> show ?thesis
      by (auto simp: addressSorted_def)
  next
    case False
    with Cons.prems(2) v have f: "find P (records vs) = Some a" by simp
    from False Cons.prems(3,4) v have "Some b \<in> set vs" by auto
    from Cons.IH [OF tl f this Cons.prems(4,5)] show ?thesis .
  qed
qed

text \<open>
  \<open>n\<close> calls of the picker on an address-sorted pool: the records returned are different
  from one another, were unused in the pool, come in the order of \<^verbatim>\<open>Less\<close>, and are
  followed by nil only when every unused record has been returned.
\<close>

lemma pickRepeat_sorted:
  assumes "addressSorted (heap h) (Back h)"
  shows "\<exists>us h'. pickRepeat n h = Inr (map Some us @ replicate (n - length us) None, h') \<and>
           distinct us \<and>
           set us \<subseteq> {a. Some a \<in> set (Back h) \<and> State (heap h a) = StateUnused} \<and>
           (length us < n \<longrightarrow>
              set us = {a. Some a \<in> set (Back h) \<and> State (heap h a) = StateUnused}) \<and>
           sorted_wrt (\<lambda>a b. Less (heap h) (Some b) (Some a) = Inr False) us"
  using assms
proof (induction n arbitrary: h)
  case 0
  show ?case by simp
next
  case (Suc n)
  let ?U = "\<lambda>h. {a. Some a \<in> set (Back h) \<and> State (heap h a) = StateUnused}"
  let ?P = "\<lambda>a. State (heap h a) = StateUnused"
  from Suc.prems have nonil: "None \<notin> set (Back h)"
    by (simp add: addressSorted_def)
  show ?case
  proof (cases "find ?P (records (Back h))")
    case None
    then have empty: "?U h = {}"
      by (auto simp: find_None_iff set_records)
    from None nonil have pick: "pickUnuseValidator h = Inr (None, h)"
      by (simp add: pickUnuseValidator_def pickLoop_find)
    from Suc.IH [OF Suc.prems] obtain us h' where
      r: "pickRepeat n h = Inr (map Some us @ replicate (n - length us) None, h')"
      and sub: "set us \<subseteq> ?U h"
      by blast
    from sub empty have "us = []" by simp
    with r pick have "pickRepeat (Suc n) h =
        Inr (map Some [] @ replicate (Suc n - length ([]::addr list)) None, h')"
      by simp
    with empty show ?thesis
      by (intro exI [of _ "[]"] exI [of _ h']) simp
  next
    case (Some a)
    define h1 where "h1 = h\<lparr>heap := setState (heap h) a StateSwitching\<rparr>"
    from Some nonil have pick: "pickUnuseValidator h = Inr (Some a, h1)"
      by (simp add: pickUnuseValidator_def pickLoop_find h1_def)
    from Some have a: "a \<in> ?U h"
      by (auto simp: find_Some_iff set_records dest: nth_mem)
    have U1: "?U h1 = ?U h - {a}"
      by (auto simp: h1_def setState_def StateSwitching_def StateUnused_def)
    have sorted1: "addressSorted (heap h1) (Back h1)"
      using Suc.prems by (simp add: h1_def addressSorted_setState)
    from Suc.IH [OF sorted1] obtain us h' where
      r: "pickRepeat n h1 = Inr (map Some us @ replicate (n - length us) None, h')"
      and d: "distinct us" and sub: "set us \<subseteq> ?U h1"
      and full: "length us < n \<longrightarrow> set us = ?U h1"
      and srt: "sorted_wrt (\<lambda>a b. Less (heap h1) (Some b) (Some a) = Inr False) us"
      by blast
    have least: "Less (heap h) (Some b) (Some a) = Inr False" if "b \<in> set us" for b
    proof -
      from that sub U1 have "Some b \<in> set (Back h)" "?P b" "b \<noteq> a" by auto
      with first_is_least [OF Suc.prems Some] show ?thesis by blast
    qed
    have srt': "sorted_wrt (\<lambda>a b. Less (heap h) (Some b) (Some a) = Inr False) (a # us)"
      using srt least by (simp add: h1_def Less_setState)
    have res: "pickRepeat (Suc n) h =
        Inr (map Some (a # us) @ replicate (Suc n - length (a # us)) None, h')"
      using pick r by simp
    have "distinct (a # us)" using d sub U1 by auto
    moreover have "set (a # us) \<subseteq> ?U h" using sub U1 a by auto
    moreover have "length (a # us) < Suc n \<longrightarrow> set (a # us) = ?U h"
      using full U1 a by auto
    ultimately show ?thesis
      using res srt' by blast
  qed
qed

text \<open>The insertion sort, on records that all have a validator.\<close>

lemma Less_key:
  "valAddress m p = Inr x \<Longrightarrow> valAddress m q = Inr y \<Longrightarrow>
   Less m p q = Inr (addrKey m p < addrKey m q)"
  by (simp add: Less_def addrKey_def bytes_Compare_def)

lemma sink_sorted:
  assumes "\<forall>p\<in>set (x # ys). \<exists>a. valAddress m p = Inr a"
    and "sorted_wrt (\<lambda>p q. Less m p q = Inr False) ys"
  shows "\<exists>zs. sink m x ys = Inr zs \<and> mset zs = add_mset x (mset ys) \<and>
           sorted_wrt (\<lambda>p q. Less m p q = Inr False) zs"
  using assms
proof (induction ys)
  case Nil
  show ?case by simp
next
  case (Cons y ys)
  from Cons.prems(1) have L: "Less m p q = Inr (addrKey m p < addrKey m q)"
    if "p \<in> set (x # y # ys)" and "q \<in> set (x # y # ys)" for p q
    using that Less_key by blast
  show ?case
  proof (cases "addrKey m x < addrKey m y")
    case True
    from Cons.prems have "\<exists>zs. sink m x ys = Inr zs \<and> mset zs = add_mset x (mset ys) \<and>
           sorted_wrt (\<lambda>p q. Less m p q = Inr False) zs"
      by (intro Cons.IH) auto
    then obtain zs where zs: "sink m x ys = Inr zs" "mset zs = add_mset x (mset ys)"
        "sorted_wrt (\<lambda>p q. Less m p q = Inr False) zs"
      by blast
    from zs(2) have set_zs: "set zs = insert x (set ys)"
      by (metis set_mset_add_mset_insert set_mset_mset)
    have "Less m y z = Inr False" if "z \<in> set zs" for z
    proof (cases "z = x")
      case True
      with \<open>addrKey m x < addrKey m y\<close> show ?thesis by (simp add: L)
    next
      case False
      with that set_zs have "z \<in> set ys" by simp
      with Cons.prems(2) show ?thesis by simp
    qed
    with zs True show ?thesis by (simp add: L)
  next
    case False
    have "Less m x z = Inr False" if "z \<in> set (y # ys)" for z
    proof (cases "z = y")
      case True
      with False show ?thesis by (simp add: L)
    next
      case F: False
      with that have z: "z \<in> set ys" by simp
      with Cons.prems(2) have "Less m y z = Inr False" by simp
      with z have "\<not> addrKey m y < addrKey m z" by (simp add: L)
      with False have "\<not> addrKey m x < addrKey m z" by simp
      with z show ?thesis by (simp add: L)
    qed
    with False Cons.prems(2) show ?thesis by (simp add: L)
  qed
qed

lemma insertionSort_sorted:
  assumes "\<forall>p\<in>set pre \<union> set xs. \<exists>a. valAddress m p = Inr a"
    and "sorted_wrt (\<lambda>p q. Less m p q = Inr False) pre"
  shows "\<exists>hs. insertionSort m pre xs = Inr hs \<and> mset hs = mset pre + mset xs \<and>
           sorted_wrt (\<lambda>p q. Less m q p = Inr False) hs"
  using assms
proof (induction xs arbitrary: pre)
  case Nil
  then show ?case by (simp add: sorted_wrt_rev)
next
  case (Cons x xs)
  from Cons.prems have "\<exists>zs. sink m x pre = Inr zs \<and> mset zs = add_mset x (mset pre) \<and>
           sorted_wrt (\<lambda>p q. Less m p q = Inr False) zs"
    by (intro sink_sorted) auto
  then obtain zs where zs: "sink m x pre = Inr zs" "mset zs = add_mset x (mset pre)"
      "sorted_wrt (\<lambda>p q. Less m p q = Inr False) zs"
    by blast
  from zs(2) have "set zs = insert x (set pre)"
    by (metis set_mset_add_mset_insert set_mset_mset)
  with Cons.prems(1) have "\<forall>p\<in>set zs \<union> set xs. \<exists>a. valAddress m p = Inr a"
    by auto
  from Cons.IH [OF this zs(3)] zs(1,2) show ?case
    by auto
qed

lemmas state_defs = StateUnused_def StateSwitching_def StateUsed_def StateRemoved_def

lemmas scene_defs = manager_def NewHealthMgr_def storeOf_def health_def state_defs

lemmas Update_defs = Update_def UpdateLoad_def UpdateAdd_def UpdateOverlapped_def

subsection \<open>Auxiliary facts: ticks and executions\<close>

lemma pickLoop_cases:
  "pickLoop m vs = Inr (v, m') \<Longrightarrow>
   m' = m \<or> (\<exists>b. State (m b) = StateUnused \<and> m' = setState m b StateSwitching)"
  by (induction m vs rule: pickLoop.induct) (auto split: if_splits)

lemma check_cases:
  assumes "checkSwitchValidator h (Some a) = Inr (out, h')"
  shows "(out = [] \<and> h' = h) \<or>
         (\<exists>back m. out = [\<lparr>Remove = Some a, Add = back, Resion = ''Switch'', from' = 0\<rparr>] \<and>
            HealthOut < sint (Tick (heap h a)) \<and> State (heap h a) = StateUsed \<and>
            (m = heap h \<or> (\<exists>b. State (heap h b) = StateUnused \<and>
                               m = setState (heap h) b StateSwitching)) \<and>
            h' = h\<lparr>heap := setState m a StateSwitching\<rparr>)"
proof (cases "HealthOut < sint (Tick (heap h a)) \<and> State (heap h a) = StateUsed")
  case False
  with assms show ?thesis
    by (auto simp: checkSwitchValidator_def Let_def)
next
  case True
  with assms obtain bk m where p: "pickLoop (heap h) (Back h) = Inr (bk, m)"
    and o: "out = [\<lparr>Remove = Some a, Add = bk, Resion = ''Switch'', from' = 0\<rparr>]"
    and h': "h' = h\<lparr>heap := setState m a StateSwitching\<rparr>"
    by (auto simp: checkSwitchValidator_def pickUnuseValidator_def Let_def
        split: sum.splits prod.splits)
  from pickLoop_cases [OF p] True o h' show ?thesis
    by blast
qed

lemma check_ticked:
  assumes "checkSwitchValidator h (Some a) = Inr (out, h')" and "Work h k = Some (Some a)"
  shows "ticked h out h'"
proof -
  from check_cases [OF assms(1)] consider
    (none) "out = []" "h' = h"
  | (plain) bk where
      "out = [\<lparr>Remove = Some a, Add = bk, Resion = ''Switch'', from' = 0\<rparr>]"
      "HealthOut < sint (Tick (heap h a))" "State (heap h a) = StateUsed"
      "h' = h\<lparr>heap := setState (heap h) a StateSwitching\<rparr>"
  | (picked) bk b where
      "out = [\<lparr>Remove = Some a, Add = bk, Resion = ''Switch'', from' = 0\<rparr>]"
      "HealthOut < sint (Tick (heap h a))" "State (heap h a) = StateUsed"
      "State (heap h b) = StateUnused"
      "h' = h\<lparr>heap := setState (setState (heap h) b StateSwitching) a StateSwitching\<rparr>"
    by blast
  then show ?thesis
  proof cases
    case none
    then show ?thesis by (simp add: ticked_def)
  next
    case plain
    have "heap h' x = (if x = a then (heap h a)\<lparr>State := StateSwitching\<rparr> else heap h x)" for x
      by (simp add: plain(4) setState_def)
    with plain(1,2,3) assms(2) show ?thesis
      unfolding ticked_def by (auto simp: plain(4) state_defs)
  next
    case picked
    from picked(3,4) have ne: "b \<noteq> a"
      by (auto simp: state_defs)
    have hp: "heap h' x = (if x = a \<or> x = b then (heap h x)\<lparr>State := StateSwitching\<rparr>
                       else heap h x)" for x
      using ne by (simp add: picked(5) setState_def)
    have wb: "Work h' = Work h" "Back h' = Back h"
      by (simp_all add: picked(5))
    show ?thesis
      unfolding ticked_def
    proof (intro conjI allI impI ballI)
      show "Work h' = Work h" "Back h' = Back h" by (fact wb)+
      show "State (heap h x) = StateUsed" if "State (heap h' x) = StateUsed" for x
        using that by (simp add: hp state_defs split: if_splits)
      show "heap h' x = heap h x"
        if "State (heap h x) \<noteq> StateUsed \<and> State (heap h x) \<noteq> StateUnused" for x
        using that picked(3,4) by (auto simp: hp)
      show "distinct (map Remove out)" by (simp add: picked(1))
      show "\<exists>a. Remove sv = Some a \<and> (\<exists>k. Work h k = Some (Some a)) \<and>
           State (heap h a) = StateUsed \<and> State (heap h' a) = StateSwitching \<and>
           HealthOut < sint (Tick (heap h' a))" if "sv \<in> set out" for sv
        using that picked(1,2,3) assms(2) by (auto simp: hp)
    qed
  qed
qed

lemma work_Cons_Some:
  assumes "Work h k = Some (Some a)" and "work h (k # ks) = Inr (out, h')"
  shows "\<exists>o1 h2 o2.
     checkSwitchValidator
       (if State (heap h a) = StateUsed
        then h\<lparr>heap := (heap h)(a := (heap h a)\<lparr>Tick := Tick (heap h a) + 1\<rparr>)\<rparr>
        else h) (Some a) = Inr (o1, h2) \<and>
     work h2 ks = Inr (o2, h') \<and> out = o1 @ o2"
proof -
  let ?h1 = "if State (heap h a) = StateUsed
        then h\<lparr>heap := (heap h)(a := (heap h a)\<lparr>Tick := Tick (heap h a) + 1\<rparr>)\<rparr>
        else h"
  from assms have eq: "(case checkSwitchValidator ?h1 (Some a) of
                Inl e \<Rightarrow> Inl e
              | Inr (out, h2) \<Rightarrow>
                  (case work h2 ks of
                     Inl e \<Rightarrow> Inl e
                   | Inr (outs, h3) \<Rightarrow> Inr (out @ outs, h3))) = Inr (out, h')"
    by (simp only: work.simps option.case Let_def)
  show ?thesis
  proof (cases "checkSwitchValidator ?h1 (Some a)")
    case (Inl e)
    with eq show ?thesis by (simp only: sum.case) simp
  next
    case (Inr r)
    obtain o1 h2 where r: "r = (o1, h2)" by (cases r)
    show ?thesis
    proof (cases "work h2 ks")
      case (Inl e)
      with eq Inr r show ?thesis by (simp only: sum.case prod.case) simp
    next
      case Inr2: (Inr q)
      obtain o2 h3 where q: "q = (o2, h3)" by (cases q)
      from eq Inr r Inr2 q have "Inr (o1 @ o2, h3) = (Inr (out, h') :: panic + SwitchValidator list \<times> HealthMgr)"
        by (simp only: sum.case prod.case)
      then have "out = o1 @ o2" "h3 = h'" by simp_all
      with Inr r Inr2 q show ?thesis by blast
    qed
  qed
qed


lemma work_ticked: "work h ks = Inr (out, h') \<Longrightarrow> ticked h out h'"
proof (induction ks arbitrary: h out h')
  case Nil
  then show ?case by (simp add: ticked_def)
next
  case (Cons k ks)
  show ?case
  proof (cases "Work h k")
    case None
    with Cons.prems have "work h ks = Inr (out, h')" by simp
    then show ?thesis by (rule Cons.IH)
  next
    case (Some v)
    with Cons.prems obtain a where v: "v = Some a" by (cases v) auto
    define h1 where "h1 = (if State (heap h a) = StateUsed
                     then h\<lparr>heap := (heap h)(a := (heap h a)\<lparr>Tick := Tick (heap h a) + 1\<rparr>)\<rparr>
                     else h)"
    from Some v have wk: "Work h k = Some (Some a)" by simp
    from work_Cons_Some [OF wk Cons.prems] obtain o1 h2 o2 where
      c: "checkSwitchValidator h1 (Some a) = Inr (o1, h2)"
      and w: "work h2 ks = Inr (o2, h')" and out: "out = o1 @ o2"
      unfolding h1_def by blast
    have w1: "Work h1 = Work h" and b1: "Back h1 = Back h"
      by (simp_all add: h1_def)
    have s1: "State (heap h1 x) = State (heap h x)" for x
      by (simp add: h1_def)
    have f1: "heap h1 x = heap h x" if "State (heap h x) \<noteq> StateUsed" for x
      using that by (cases "x = a") (auto simp: h1_def)
    from wk w1 have "Work h1 k = Some (Some a)" by simp
    from check_ticked [OF c this] have t1: "ticked h1 o1 h2" .
    from Cons.IH [OF w] have t2: "ticked h2 o2 h'" .
    from t1 have t1w: "Work h2 = Work h1" "Back h2 = Back h1"
      and t1u: "\<And>x. State (heap h2 x) = StateUsed \<Longrightarrow> State (heap h1 x) = StateUsed"
      and t1f: "\<And>x. State (heap h1 x) \<noteq> StateUsed \<Longrightarrow> State (heap h1 x) \<noteq> StateUnused \<Longrightarrow>
                 heap h2 x = heap h1 x"
      and t1d: "distinct (map Remove o1)"
      and t1e: "\<And>sv. sv \<in> set o1 \<Longrightarrow> \<exists>a. Remove sv = Some a \<and>
           (\<exists>k. Work h1 k = Some (Some a)) \<and>
           State (heap h1 a) = StateUsed \<and> State (heap h2 a) = StateSwitching \<and>
           HealthOut < sint (Tick (heap h2 a))"
      unfolding ticked_def by blast+
    from t2 have t2w: "Work h' = Work h2" "Back h' = Back h2"
      and t2u: "\<And>x. State (heap h' x) = StateUsed \<Longrightarrow> State (heap h2 x) = StateUsed"
      and t2f: "\<And>x. State (heap h2 x) \<noteq> StateUsed \<Longrightarrow> State (heap h2 x) \<noteq> StateUnused \<Longrightarrow>
                 heap h' x = heap h2 x"
      and t2d: "distinct (map Remove o2)"
      and t2e: "\<And>sv. sv \<in> set o2 \<Longrightarrow> \<exists>a. Remove sv = Some a \<and>
           (\<exists>k. Work h2 k = Some (Some a)) \<and>
           State (heap h2 a) = StateUsed \<and> State (heap h' a) = StateSwitching \<and>
           HealthOut < sint (Tick (heap h' a))"
      unfolding ticked_def by blast+
    have em1: "\<exists>a. Remove sv = Some a \<and> (\<exists>k. Work h k = Some (Some a)) \<and>
         State (heap h a) = StateUsed \<and> State (heap h2 a) = StateSwitching \<and>
         State (heap h' a) = StateSwitching \<and>
         HealthOut < sint (Tick (heap h' a))" if "sv \<in> set o1" for sv
    proof -
      from t1e [OF that] obtain b where b: "Remove sv = Some b"
        "\<exists>k. Work h1 k = Some (Some b)"
        "State (heap h1 b) = StateUsed" "State (heap h2 b) = StateSwitching"
        "HealthOut < sint (Tick (heap h2 b))"
        by blast
      from b(4) have "heap h' b = heap h2 b"
        by (intro t2f) (simp_all add: state_defs)
      with b show ?thesis by (simp add: w1 s1)
    qed
    have em2: "\<exists>a. Remove sv = Some a \<and> (\<exists>k. Work h k = Some (Some a)) \<and>
         State (heap h a) = StateUsed \<and> State (heap h2 a) = StateUsed \<and>
         State (heap h' a) = StateSwitching \<and>
         HealthOut < sint (Tick (heap h' a))" if "sv \<in> set o2" for sv
    proof -
      from t2e [OF that] obtain b where b: "Remove sv = Some b"
        "\<exists>k. Work h2 k = Some (Some b)"
        "State (heap h2 b) = StateUsed" "State (heap h' b) = StateSwitching"
        "HealthOut < sint (Tick (heap h' b))"
        by blast
      from t1u [OF b(3)] have "State (heap h b) = StateUsed" by (simp add: s1)
      with b show ?thesis by (simp add: t1w w1)
    qed
    have cross: "Remove x \<noteq> Remove y" if "x \<in> set o1" "y \<in> set o2" for x y
    proof
      assume eq: "Remove x = Remove y"
      from em1 [OF that(1)] obtain a1 where a1: "Remove x = Some a1"
        "State (heap h2 a1) = StateSwitching" by blast
      from em2 [OF that(2)] obtain a2 where a2: "Remove y = Some a2"
        "State (heap h2 a2) = StateUsed" by blast
      from eq a1(1) a2(1) have "a1 = a2" by simp
      with a1(2) a2(2) show False by (simp add: state_defs)
    qed
    show ?thesis
      unfolding ticked_def
    proof (intro conjI allI impI ballI)
      show "Work h' = Work h" by (simp add: t2w t1w w1)
      show "Back h' = Back h" by (simp add: t2w t1w b1)
      show "State (heap h x) = StateUsed" if "State (heap h' x) = StateUsed" for x
        using t1u [OF t2u [OF that]] by (simp add: s1)
      show "heap h' x = heap h x"
        if "State (heap h x) \<noteq> StateUsed \<and> State (heap h x) \<noteq> StateUnused" for x
      proof -
        from that have a: "heap h1 x = heap h x" by (simp add: f1)
        from that have b: "heap h2 x = heap h1 x" by (intro t1f) (simp_all add: s1)
        from that a b have "heap h' x = heap h2 x" by (intro t2f) simp_all
        with a b show ?thesis by simp
      qed
      show "distinct (map Remove out)"
        using t1d t2d cross by (auto simp: out)
      show "\<exists>a. Remove sv = Some a \<and> (\<exists>k. Work h k = Some (Some a)) \<and>
           State (heap h a) = StateUsed \<and> State (heap h' a) = StateSwitching \<and>
           HealthOut < sint (Tick (heap h' a))" if "sv \<in> set out" for sv
      proof -
        from that out have "sv \<in> set o1 \<or> sv \<in> set o2" by simp
        then show ?thesis
        proof
          assume "sv \<in> set o1"
          from em1 [OF this] show ?thesis by blast
        next
          assume "sv \<in> set o2"
          from em2 [OF this] show ?thesis by blast
        qed
      qed
    qed
  qed
qed

lemma UpdateAdd_states:
  "Work (UpdateAdd h a val) = Work h \<and> Back (UpdateAdd h a val) = Back h \<and>
   (\<forall>x. State (heap (UpdateAdd h a val) x) = State (heap h x))"
  by (simp add: UpdateAdd_def)

lemma Update_states:
  "Update h i = Inr h' \<Longrightarrow>
   Work h' = Work h \<and> Back h' = Back h \<and> (\<forall>x. State (heap h' x) = State (heap h x))"
proof -
  assume u: "Update h i = Inr h'"
  then obtain l where h': "h' = addLoaded h l"
    by (auto simp: Update_def split: sum.splits)
  show ?thesis
  proof (cases l)
    case None
    with h' show ?thesis by simp
  next
    case (Some p)
    obtain a val where "p = (a, val)" by (cases p)
    with Some h' UpdateAdd_states [of h a val] show ?thesis by simp
  qed
qed

lemma promoteLoop_cases:
  "promoteLoop m vs p = Inr m' \<Longrightarrow>
   m' = m \<or> (\<exists>b. Some b \<in> set vs \<and> m' = setState m b StateUsed)"
  by (induction m vs p rule: promoteLoop.induct) (auto split: if_splits option.splits)

lemma switchResult_states:
  assumes "switchResult h p = Inr h'" and "separate h"
  shows "Work h' = Work h \<and> Back h' = Back h \<and>
         (\<forall>k x. Work h k = Some (Some x) \<and> State (heap h' x) = StateUsed \<longrightarrow>
              State (heap h x) = StateUsed)"
proof (cases "\<exists>res. p = Some res \<and> from' res = 1 \<and> Resion res = []")
  case False
  with assms(1) have "h' = h"
    by (auto simp: switchResult_def split: option.splits sum.splits if_splits)
  then show ?thesis by simp
next
  case True
  then obtain res where res: "p = Some res" "from' res = 1" "Resion res = []"
    by blast
  with assms(1) have s: "switchSuccess h res = Inr h'"
    by (auto simp: switchResult_def split: sum.splits)
  then obtain m1 m2 where m1: "m1 = heap h \<or> (\<exists>v. m1 = setState (heap h) v StateRemoved)"
    and pl: "promoteLoop m1 (Back h) (Add res) = Inr m2" and h': "h' = h\<lparr>heap := m2\<rparr>"
    by (auto simp: switchSuccess_def Let_def split: option.splits sum.splits)
  from h' have wb: "Work h' = Work h" "Back h' = Back h" and hp: "heap h' = m2"
    by simp_all
  have "State (heap h x) = StateUsed"
    if "Work h k = Some (Some x)" and "State (heap h' x) = StateUsed" for k x
  proof -
    from that(1) assms(2) have nb: "Some x \<notin> set (Back h)"
      by (auto simp: separate_def)
    from promoteLoop_cases [OF pl] nb hp have "heap h' x = m1 x"
      by (auto simp: setState_def)
    with m1 that(2) show ?thesis
      by (auto simp: setState_def state_defs split: if_splits)
  qed
  with wb show ?thesis by blast
qed


text \<open>What one event does, on a manager whose active set and pool are separate.\<close>

lemma fire_step:
  assumes "fire h e = Inr (out, h')" and "separate h"
  shows "Work h' = Work h \<and> Back h' = Back h \<and>
         (\<forall>k x. Work h k = Some (Some x) \<and> State (heap h' x) = StateUsed \<longrightarrow>
              State (heap h x) = StateUsed) \<and>
         distinct (map Remove out) \<and>
         (\<forall>sv\<in>set out. \<exists>a. Remove sv = Some a \<and> (\<exists>k. Work h k = Some (Some a)) \<and>
              State (heap h a) = StateUsed \<and> State (heap h' a) = StateSwitching \<and>
              HealthOut < sint (Tick (heap h' a)))"
proof (cases e)
  case (TickEv ks)
  with assms(1) have "work h ks = Inr (out, h')" by simp
  then have t: "ticked h out h'" by (rule work_ticked)
  from t have "Work h' = Work h" "Back h' = Back h" "distinct (map Remove out)"
    and u: "\<And>x. State (heap h' x) = StateUsed \<Longrightarrow> State (heap h x) = StateUsed"
    and e: "\<forall>sv\<in>set out. \<exists>a. Remove sv = Some a \<and> (\<exists>k. Work h k = Some (Some a)) \<and>
              State (heap h a) = StateUsed \<and> State (heap h' a) = StateSwitching \<and>
              HealthOut < sint (Tick (heap h' a))"
    unfolding ticked_def by blast+
  moreover from u have "\<forall>k x. Work h k = Some (Some x) \<and> State (heap h' x) = StateUsed \<longrightarrow>
              State (heap h x) = StateUsed"
    by blast
  ultimately show ?thesis
    by (intro conjI)
next
  case (ResultEv p)
  with assms(1) have r: "switchResult h p = Inr h'" and o: "out = []"
    by (auto split: sum.splits)
  from switchResult_states [OF r assms(2)]
  have "Work h' = Work h" "Back h' = Back h"
    "\<forall>k x. Work h k = Some (Some x) \<and> State (heap h' x) = StateUsed \<longrightarrow>
              State (heap h x) = StateUsed"
    by blast+
  moreover have "distinct (map Remove out)"
    "\<forall>sv\<in>set out. \<exists>a. Remove sv = Some a \<and> (\<exists>k. Work h k = Some (Some a)) \<and>
              State (heap h a) = StateUsed \<and> State (heap h' a) = StateSwitching \<and>
              HealthOut < sint (Tick (heap h' a))"
    by (simp_all add: o)
  ultimately show ?thesis
    by (intro conjI)
next
  case (UpdateEv i)
  with assms(1) have r: "Update h i = Inr h'" and o: "out = []"
    by (auto split: sum.splits)
  from Update_states [OF r]
  have "Work h' = Work h" "Back h' = Back h" and s: "\<And>x. State (heap h' x) = State (heap h x)"
    by blast+
  moreover from s have "\<forall>k x. Work h k = Some (Some x) \<and> State (heap h' x) = StateUsed \<longrightarrow>
              State (heap h x) = StateUsed"
    by simp
  moreover have "distinct (map Remove out)"
    "\<forall>sv\<in>set out. \<exists>a. Remove sv = Some a \<and> (\<exists>k. Work h k = Some (Some a)) \<and>
              State (heap h a) = StateUsed \<and> State (heap h' a) = StateSwitching \<and>
              HealthOut < sint (Tick (heap h' a))"
    by (simp_all add: o)
  ultimately show ?thesis
    by (intro conjI)
next
  case (AddEv a val)
  with assms(1) have r: "h' = UpdateAdd h a val" and o: "out = []"
    by auto
  from UpdateAdd_states [of h a val] r
  have "Work h' = Work h" "Back h' = Back h" and s: "\<And>x. State (heap h' x) = State (heap h x)"
    by blast+
  moreover from s have "\<forall>k x. Work h k = Some (Some x) \<and> State (heap h' x) = StateUsed \<longrightarrow>
              State (heap h x) = StateUsed"
    by simp
  moreover have "distinct (map Remove out)"
    "\<forall>sv\<in>set out. \<exists>a. Remove sv = Some a \<and> (\<exists>k. Work h k = Some (Some a)) \<and>
              State (heap h a) = StateUsed \<and> State (heap h' a) = StateSwitching \<and>
              HealthOut < sint (Tick (heap h' a))"
    by (simp_all add: o)
  ultimately show ?thesis
    by (intro conjI)
qed

lemma separate_same:
  "separate h \<Longrightarrow> Work h' = Work h \<and> Back h' = Back h \<and> P \<Longrightarrow> separate h'"
  by (simp add: separate_def)

lemma run_requests:
  assumes "run h es = Inr (out, h')" and "separate h"
  shows "distinct (map Remove out) \<and>
         (\<forall>sv\<in>set out. \<exists>a. Remove sv = Some a \<and> (\<exists>k. Work h k = Some (Some a)) \<and>
              State (heap h a) = StateUsed)"
  using assms
proof (induction es arbitrary: h out)
  case Nil
  then show ?case by simp
next
  case (Cons e es)
  from Cons.prems(1) obtain o1 h1 o2 where
    f: "fire h e = Inr (o1, h1)" and r: "run h1 es = Inr (o2, h')" and out: "out = o1 @ o2"
    by (auto split: sum.splits prod.splits)
  note st = fire_step [OF f Cons.prems(2)]
  from Cons.prems(2) st have sep1: "separate h1"
    by (rule separate_same)
  note ih = Cons.IH [OF r sep1]
  have em1: "\<exists>a. Remove sv = Some a \<and> (\<exists>k. Work h k = Some (Some a)) \<and>
       State (heap h a) = StateUsed \<and> State (heap h1 a) = StateSwitching"
    if "sv \<in> set o1" for sv
    using st that by blast
  have em2: "\<exists>a. Remove sv = Some a \<and> (\<exists>k. Work h k = Some (Some a)) \<and>
       State (heap h a) = StateUsed \<and> State (heap h1 a) = StateUsed"
    if "sv \<in> set o2" for sv
  proof -
    from ih that obtain a where a: "Remove sv = Some a" "\<exists>k. Work h1 k = Some (Some a)"
      "State (heap h1 a) = StateUsed"
      by blast
    from a(2) st obtain k where k: "Work h k = Some (Some a)" by auto
    with st a(3) have "State (heap h a) = StateUsed" by blast
    with a k show ?thesis by blast
  qed
  have "Remove x \<noteq> Remove y" if "x \<in> set o1" "y \<in> set o2" for x y
  proof
    assume eq: "Remove x = Remove y"
    from em1 [OF that(1)] obtain a1 where a1: "Remove x = Some a1"
      "State (heap h1 a1) = StateSwitching" by blast
    from em2 [OF that(2)] obtain a2 where a2: "Remove y = Some a2"
      "State (heap h1 a2) = StateUsed" by blast
    from eq a1(1) a2(1) have "a1 = a2" by simp
    with a1(2) a2(2) show False by (simp add: state_defs)
  qed
  moreover from st ih have "distinct (map Remove o1)" "distinct (map Remove o2)"
    by simp_all
  ultimately have "distinct (map Remove out)"
    by (auto simp: out)
  moreover have "\<exists>a. Remove sv = Some a \<and> (\<exists>k. Work h k = Some (Some a)) \<and>
       State (heap h a) = StateUsed" if "sv \<in> set out" for sv
  proof -
    from that out have "sv \<in> set o1 \<or> sv \<in> set o2" by simp
    then show ?thesis
    proof
      assume "sv \<in> set o1"
      from em1 [OF this] show ?thesis by blast
    next
      assume "sv \<in> set o2"
      from em2 [OF this] show ?thesis by blast
    qed
  qed
  ultimately show ?case by blast
qed

lemma run_frame:
  "run h es = Inr (out, h') \<Longrightarrow> separate h \<Longrightarrow> separate h' \<and> Work h' = Work h"
proof (induction es arbitrary: h out)
  case Nil
  then show ?case by simp
next
  case (Cons e es)
  from Cons.prems(1) obtain o1 h1 o2 where
    f: "fire h e = Inr (o1, h1)" and r: "run h1 es = Inr (o2, h')"
    by (auto split: sum.splits prod.splits)
  note st = fire_step [OF f Cons.prems(2)]
  from Cons.prems(2) st have "separate h1"
    by (rule separate_same)
  from Cons.IH [OF r this] st show ?case by simp
qed


subsection \<open>Update\<close>

text \<open>A call of \<open>Update\<close> that nothing interrupts sets the tick to 0 and nothing else.\<close>

lemma Update_alone:
  "(Work h i = Some (Some a) \<longrightarrow>
      (\<exists>h'. Update h i = Inr h' \<and> Tick (heap h' a) = 0 \<and>
            heap h' a = (heap h a)\<lparr>Tick := 0\<rparr> \<and>
            (\<forall>b. b \<noteq> a \<longrightarrow> heap h' b = heap h b) \<and>
            Work h' = Work h \<and> Back h' = Back h)) \<and>
   (Work h i = None \<longrightarrow> Update h i = Inr h)"
  by (simp add: Update_defs)

text \<open>
  The add takes the loaded value off whatever the tick is by then; and two calls for
  one peer that overlap leave the tick at minus what it was.
\<close>

lemma UpdateAdd_tick:
  "Tick (heap (UpdateAdd g a val) a) = Tick (heap g a) - val"
  by (simp add: UpdateAdd_def)

lemma UpdateOverlapped_tick:
  "Work h i = Some (Some a) \<Longrightarrow>
   \<exists>h'. UpdateOverlapped h i i = Inr h' \<and> Tick (heap h' a) = - Tick (heap h a)"
  by (simp add: Update_defs)

text \<open>
  Claim C7 is that \<open>Update\<close> for a peer of the active set leaves the tick of its record
  at 0, to be read as 0 so long as no tick of the ticker intervenes. The code does not
  secure that. It resets the tick by a load and a separate add of the negated value,
  where \<^verbatim>\<open>work\<close> increments it by one atomic add; so when two calls for the silent C
  (tick 600) overlap, each loads 600, the first add leaves 0 and the second - 600, no
  tick of the ticker having intervened.
\<close>

theorem Update_overlapped_negative:
  "Tick (heap silent 2) = 600 \<and>
   UpdateLoad silent ''C'' = Inr (Some (2, 600)) \<and>
   (\<exists>h'. UpdateOverlapped silent ''C'' ''C'' = Inr h' \<and> sint (Tick (heap h' 2)) = - 600)"
  by (simp add: Update_defs silent_def scene_defs)

subsection \<open>Update on a record that is being switched\<close>

text \<open>
  Claim C4, as the spec has it, is that \<open>Update\<close> for a record in state Switching or
  Removed leaves its tick and its state as they were. It fails: C is switching with
  tick 601, and \<open>Update\<close> sets the tick to 0.
\<close>

theorem Update_switching_counterexample:
  "\<exists>h'. Update switching ''C'' = Inr h' \<and> State (heap switching 2) = StateSwitching \<and>
        Tick (heap switching 2) = 601 \<and> Tick (heap h' 2) = 0"
  by (simp add: Update_defs switching_def scene_defs)

text \<open>
  Claim C4, amended. \<open>Update\<close> for a record of the active set in state Switching or
  Removed is not ignored: it loads the tick of the record, and its add, whenever it
  takes place and whatever it finds, leaves the state of every record as it was, so
  that the switch request is not retracted; and a call that nothing interrupts sets
  the tick of the record to 0.
\<close>

theorem Update_keeps_state:
  assumes "Work h i = Some (Some a)"
    and "State (heap h a) = StateSwitching \<or> State (heap h a) = StateRemoved"
  shows "UpdateLoad h i = Inr (Some (a, Tick (heap h a))) \<and>
         (\<forall>g val b. State (heap (UpdateAdd g a val) b) = State (heap g b)) \<and>
         (\<exists>h'. Update h i = Inr h' \<and> Tick (heap h' a) = 0 \<and>
               (\<forall>b. State (heap h' b) = State (heap h b)))"
  using assms(1) by (simp add: Update_defs)

theorem Update_keeps_state_witness:
  "Work switching ''C'' = Some (Some 2) \<and> State (heap switching 2) = StateSwitching \<and>
   Tick (heap switching 2) = 601 \<and>
   UpdateLoad switching ''C'' = Inr (Some (2, 601)) \<and>
   (\<exists>h'. Update switching ''C'' = Inr h' \<and> Tick (heap h' 2) = 0 \<and>
         (\<forall>b. State (heap h' b) = State (heap switching b)))"
proof -
  have w: "Work switching ''C'' = Some (Some 2)"
    by (simp add: switching_def manager_def)
  have s: "State (heap switching 2) = StateSwitching"
    by (simp add: switching_def scene_defs)
  have t: "Tick (heap switching 2) = 601"
    by (simp add: switching_def scene_defs)
  from Update_keeps_state [OF w] s
  have "UpdateLoad switching ''C'' = Inr (Some (2, Tick (heap switching 2)))"
    and "\<exists>h'. Update switching ''C'' = Inr h' \<and> Tick (heap h' 2) = 0 \<and>
         (\<forall>b. State (heap h' b) = State (heap switching b))"
    by blast+
  with w s t show ?thesis
    by simp
qed

subsection \<open>switchResult\<close>

text \<open>
  Claim C2, as the spec has it, is that a remote outcome with a reason moves the
  outgoing record from Switching back to Used and the candidate from Switching back to
  Unused. It fails: the coordinator rejects the switch of C for D, and the manager is
  as before, C and D still switching.
\<close>

theorem switchResult_failure_counterexample:
  "switchResult switching (Some rejected) = Inr switching \<and>
   State (heap switching 2) = StateSwitching \<and> State (heap switching 3) = StateSwitching \<and>
   StateSwitching \<noteq> StateUsed \<and> StateSwitching \<noteq> StateUnused"
  by (simp add: switchResult_def rejected_def Health_String_def valAddress_def
      switching_def scene_defs)

text \<open>
  Claim C2, amended. A remote outcome with a reason, naming two records that have a
  validator, changes nothing: the outgoing record and the candidate stay in the state
  they were in (Switching, after the request), and every tick is as it was.
\<close>

theorem switchResult_failure_unchanged:
  assumes "from' res = 1" and "Resion res \<noteq> []"
    and "Remove res = Some r" and "Add res = Some a"
    and "Val (heap h r) \<noteq> None" and "Val (heap h a) \<noteq> None"
  shows "switchResult h (Some res) = Inr h"
  using assms by (auto simp: switchResult_def Health_String_def valAddress_def)

theorem switchResult_failure_unchanged_witness:
  "from' rejected = 1 \<and> Resion rejected \<noteq> [] \<and>
   switchResult switching (Some rejected) = Inr switching"
proof -
  have "Val (heap switching 2) \<noteq> None" and "Val (heap switching 3) \<noteq> None"
    by (simp_all add: switching_def scene_defs)
  then have "switchResult switching (Some rejected) = Inr switching"
    by (intro switchResult_failure_unchanged [where r = 2 and a = 3])
       (simp_all add: rejected_def)
  then show ?thesis by (simp add: rejected_def)
qed

text \<open>
  Claim C10. A successful remote outcome whose outgoing record has an ID that is not in
  the active set still promotes the candidate: the first record of the pool with the
  candidate's ID is set to Used, and no other record changes.
\<close>

theorem switchResult_unknown_remove:
  assumes "from' res = 1" and "Resion res = []"
    and "Remove res = Some r" and "Add res = Some a"
    and "Val (heap h r) \<noteq> None" and "Val (heap h a) \<noteq> None"
    and "None \<notin> set (Back h)"
    and "Work h (ID (heap h r)) = None"
    and "find (\<lambda>b. ID (heap h b) = ID (heap h a)) (records (Back h)) = Some b"
  shows "\<exists>h'. switchResult h (Some res) = Inr h' \<and> State (heap h' b) = StateUsed \<and>
           (\<forall>x. x \<noteq> b \<longrightarrow> heap h' x = heap h x)"
  using switchResult_success [OF assms(1-7)] assms(8,9) by (simp add: setState_def Let_def)

theorem switchResult_unknown_remove_witness:
  "Work switching (ID (heap switching 4)) = None \<and>
   (\<exists>h'. switchResult switching (Some stray) = Inr h' \<and> State (heap h' 3) = StateUsed)"
proof -
  have w: "Work switching (ID (heap switching 4)) = None"
    by (simp add: switching_def scene_defs)
  have f: "find (\<lambda>b. ID (heap switching b) = ID (heap switching 3))
             (records (Back switching)) = Some 3"
    by (simp add: switching_def scene_defs)
  have "\<exists>h'. switchResult switching (Some stray) = Inr h' \<and> State (heap h' 3) = StateUsed \<and>
           (\<forall>x. x \<noteq> 3 \<longrightarrow> heap h' x = heap switching x)"
    by (rule switchResult_unknown_remove [where r = 4 and a = 3, OF _ _ _ _ _ _ _ w f])
       (simp_all add: stray_def switching_def scene_defs)
  with w show ?thesis by blast
qed

text \<open>
  Claim C3, as the spec has it, is that a successful remote outcome takes one Used
  record away (to Removed) and gives one (from Switching). It fails: when the
  coordinator accepts the switch of C for D, C is Switching, not Used; of the five
  records, A and B are in use before and A, B and D after.
\<close>

theorem switchResult_success_counterexample:
  "\<exists>h'. switchResult switching (Some accepted) = Inr h' \<and>
        State (heap switching 2) = StateSwitching \<and> StateSwitching \<noteq> StateUsed \<and>
        State (heap h' 2) = StateRemoved \<and> State (heap h' 3) = StateUsed \<and>
        usedAmong switching [0, 1, 2, 3, 4] = [0, 1] \<and>
        usedAmong h' [0, 1, 2, 3, 4] = [0, 1, 3]"
  by (simp add: switchResult_def switchSuccess_def accepted_def Health_String_def
      valAddress_def setState_def usedAmong_def switching_def scene_defs)

text \<open>
  Claim C3, amended. A successful remote outcome naming two records that have a
  validator sets the record that the active set holds under the outgoing record's ID,
  if there is one, to Removed, and the first record of the pool with the candidate's
  ID, if there is one, to Used (should the two be one record, it ends Used). No other
  record changes, and of those two only the state: every tick is as it was. The state
  the two records had before plays no part.
\<close>

theorem switchResult_success_effect:
  assumes "from' res = 1" and "Resion res = []"
    and "Remove res = Some r" and "Add res = Some a"
    and "Val (heap h r) \<noteq> None" and "Val (heap h a) \<noteq> None"
    and "None \<notin> set (Back h)" and "Work h (ID (heap h r)) \<noteq> Some None"
    and "pro = find (\<lambda>b. ID (heap h b) = ID (heap h a)) (records (Back h))"
  shows "\<exists>h'. switchResult h (Some res) = Inr h' \<and>
           Work h' = Work h \<and> Back h' = Back h \<and>
           (\<forall>b. pro = Some b \<longrightarrow> State (heap h' b) = StateUsed) \<and>
           (\<forall>w. Work h (ID (heap h r)) = Some (Some w) \<and> pro \<noteq> Some w \<longrightarrow>
                State (heap h' w) = StateRemoved) \<and>
           (\<forall>x. Work h (ID (heap h r)) \<noteq> Some (Some x) \<and> pro \<noteq> Some x \<longrightarrow>
                heap h' x = heap h x) \<and>
           (\<forall>x. (heap h' x)\<lparr>State := State (heap h x)\<rparr> = heap h x)"
proof -
  let ?h' = "h\<lparr>heap :=
        (let m1 = (case Work h (ID (heap h r)) of
                     Some (Some w) \<Rightarrow> setState (heap h) w StateRemoved | _ \<Rightarrow> heap h)
         in case pro of
              None \<Rightarrow> m1 | Some b \<Rightarrow> setState m1 b StateUsed)\<rparr>"
  have eq: "switchResult h (Some res) = Inr ?h'"
    using switchResult_success [OF assms(1-8)] by (simp add: assms(9))
  have "(heap ?h' x)\<lparr>State := State (heap h x)\<rparr> = heap h x" for x
    by (simp add: setState_def Let_def split: option.splits)
  with eq show ?thesis
    by (auto simp: setState_def Let_def split: option.splits)
qed

theorem switchResult_success_effect_witness:
  "Work switching (ID (heap switching 2)) = Some (Some 2) \<and>
   (\<exists>h'. switchResult switching (Some accepted) = Inr h' \<and>
         State (heap h' 3) = StateUsed \<and> State (heap h' 2) = StateRemoved \<and>
         heap h' 4 = heap switching 4)"
proof -
  have w: "Work switching (ID (heap switching 2)) = Some (Some 2)"
    by (simp add: switching_def scene_defs)
  have f: "Some 3 = find (\<lambda>b. ID (heap switching b) = ID (heap switching 3))
             (records (Back switching))"
    by (simp add: switching_def scene_defs)
  have n: "Work switching (ID (heap switching 2)) \<noteq> Some None"
    by (simp add: w)
  have "\<exists>h'. switchResult switching (Some accepted) = Inr h' \<and>
           Work h' = Work switching \<and> Back h' = Back switching \<and>
           (\<forall>b. Some 3 = Some b \<longrightarrow> State (heap h' b) = StateUsed) \<and>
           (\<forall>w. Work switching (ID (heap switching 2)) = Some (Some w) \<and> Some 3 \<noteq> Some w \<longrightarrow>
                State (heap h' w) = StateRemoved) \<and>
           (\<forall>x. Work switching (ID (heap switching 2)) \<noteq> Some (Some x) \<and> Some 3 \<noteq> Some x \<longrightarrow>
                heap h' x = heap switching x) \<and>
           (\<forall>x. (heap h' x)\<lparr>State := State (heap switching x)\<rparr> = heap switching x)"
    by (rule switchResult_success_effect [where r = 2 and a = 3, OF _ _ _ _ _ _ _ n f])
       (simp_all add: accepted_def switching_def scene_defs)
  then obtain h' where h': "switchResult switching (Some accepted) = Inr h'"
      "State (heap h' 3) = StateUsed"
      "\<forall>w. Work switching (ID (heap switching 2)) = Some (Some w) \<and> Some 3 \<noteq> Some w \<longrightarrow>
                State (heap h' w) = StateRemoved"
      "\<forall>x. Work switching (ID (heap switching 2)) \<noteq> Some (Some x) \<and> Some 3 \<noteq> Some x \<longrightarrow>
                heap h' x = heap switching x"
    by blast
  from h'(3) w have "State (heap h' 2) = StateRemoved"
    by simp
  moreover from h'(4) w have "heap h' 4 = heap switching 4"
    by simp
  ultimately show ?thesis
    using w h'(1,2) by blast
qed

subsection \<open>A tick without a backup\<close>

text \<open>
  Claim C1 is that a record over the threshold stays Used, and that no request is
  posted, when the pool has no unused record. The code does otherwise. At its 601st
  silent tick, with an empty pool, A is set to Switching and a request with a nil
  candidate is posted; and were that request to come back as a remote outcome,
  \<open>switchResult\<close> would dereference the nil candidate.
\<close>

theorem work_without_backup:
  "work noBackup [''A''] =
     Inr ([\<lparr>Remove = Some 0, Add = None, Resion = ''Switch'', from' = 0\<rparr>],
          noBackup\<lparr>heap := storeOf [health ''A'' 601 StateSwitching 1]\<rparr>) \<and>
   switchResult (noBackup\<lparr>heap := storeOf [health ''A'' 601 StateSwitching 1]\<rparr>)
     (Some \<lparr>Remove = Some 0, Add = None, Resion = ''Switch'', from' = 1\<rparr>) =
     Inl NilDereference"
  by (simp add: noBackup_def checkSwitchValidator_def pickUnuseValidator_def setState_def
      switchResult_def Health_String_def valAddress_def HealthOut_def scene_defs fun_eq_iff)

subsection \<open>The picker\<close>

text \<open>
  Claim C6. On an address-sorted pool \<^verbatim>\<open>pickUnuseValidator\<close> returns the first record
  whose state is Unused, set to Switching, and nil (with nothing changed) when there
  is none. Hence \<open>n\<close> calls in a row return unused records of the pool, each once and in
  ascending order of address, and nil from the call on at which every unused record
  has been returned.
\<close>

theorem pickUnuseValidator_ascending:
  assumes "addressSorted (heap h) (Back h)"
  shows "pickUnuseValidator h =
           Inr (case find (\<lambda>a. State (heap h a) = StateUnused) (records (Back h)) of
                  None \<Rightarrow> (None, h)
                | Some a \<Rightarrow> (Some a, h\<lparr>heap := setState (heap h) a StateSwitching\<rparr>)) \<and>
         (\<exists>us h'. pickRepeat n h = Inr (map Some us @ replicate (n - length us) None, h') \<and>
            distinct us \<and>
            set us \<subseteq> {a. Some a \<in> set (Back h) \<and> State (heap h a) = StateUnused} \<and>
            (length us < n \<longrightarrow>
               set us = {a. Some a \<in> set (Back h) \<and> State (heap h a) = StateUnused}) \<and>
            sorted_wrt (\<lambda>a b. Less (heap h) (Some b) (Some a) = Inr False) us)"
proof
  from assms have "None \<notin> set (Back h)"
    by (simp add: addressSorted_def)
  then show "pickUnuseValidator h =
           Inr (case find (\<lambda>a. State (heap h a) = StateUnused) (records (Back h)) of
                  None \<Rightarrow> (None, h)
                | Some a \<Rightarrow> (Some a, h\<lparr>heap := setState (heap h) a StateSwitching\<rparr>))"
    by (simp add: pickUnuseValidator_def pickLoop_find split: option.splits)
next
  from assms show "\<exists>us h'. pickRepeat n h =
            Inr (map Some us @ replicate (n - length us) None, h') \<and>
            distinct us \<and>
            set us \<subseteq> {a. Some a \<in> set (Back h) \<and> State (heap h a) = StateUnused} \<and>
            (length us < n \<longrightarrow>
               set us = {a. Some a \<in> set (Back h) \<and> State (heap h a) = StateUnused}) \<and>
            sorted_wrt (\<lambda>a b. Less (heap h) (Some b) (Some a) = Inr False) us"
    by (rule pickRepeat_sorted)
qed

theorem pickUnuseValidator_ascending_witness:
  "addressSorted (heap standby) (Back standby) \<and>
   map_sum id fst (pickUnuseValidator standby) = Inr (Some 0) \<and>
   map_sum id fst (pickRepeat 3 standby) = Inr [Some 0, Some 2, None] \<and>
   (\<exists>us h'. pickRepeat 3 standby = Inr (map Some us @ replicate (3 - length us) None, h') \<and>
      distinct us \<and>
      sorted_wrt (\<lambda>a b. Less (heap standby) (Some b) (Some a) = Inr False) us)"
proof -
  have s: "addressSorted (heap standby) (Back standby)"
    by (simp add: addressSorted_def standby_def Less_def valAddress_def bytes_Compare_def
        scene_defs)
  have f: "find (\<lambda>a. State (heap standby a) = StateUnused) (records (Back standby)) = Some 0"
    by (simp add: standby_def scene_defs)
  from pickUnuseValidator_ascending [OF s, of 3] f
  have "map_sum id fst (pickUnuseValidator standby) = Inr (Some 0)"
    and "\<exists>us h'. pickRepeat 3 standby =
            Inr (map Some us @ replicate (3 - length us) None, h') \<and>
          distinct us \<and>
          sorted_wrt (\<lambda>a b. Less (heap standby) (Some b) (Some a) = Inr False) us"
    by auto
  moreover have "map_sum id fst (pickRepeat 3 standby) = Inr [Some 0, Some 2, None]"
    by (simp add: numeral_3_eq_3 pickUnuseValidator_def setState_def standby_def scene_defs)
  ultimately show ?thesis
    using s by blast
qed

subsection \<open>SetBackValidators and the start of the manager\<close>

text \<open>
  Claim C9, as the spec has it, is that \<open>SetBackValidators\<close> after the start fails with
  an error and leaves the pool as it was. It fails: the function returns no error and
  reads no phase; on a manager whose ticker runs it replaces the pool of three by the
  pool it is given.
\<close>

theorem SetBackValidators_started_counterexample:
  "healthTick (OnStart standby) \<and> Back (OnStart standby) = [Some 0, Some 1, Some 2] \<and>
   SetBackValidators (OnStart standby) [Some 1] = Inr ((OnStart standby)\<lparr>Back := [Some 1]\<rparr>)"
  by (simp add: SetBackValidators_def sort_Sort_def OnStart_def standby_def manager_def
      NewHealthMgr_def)

text \<open>
  Claim C9, amended. \<open>SetBackValidators\<close>, given records that all have a validator,
  replaces the pool by a rearrangement of them that is address-sorted, and returns no
  error; it does the same after \<open>OnStart\<close> as before.
\<close>

theorem SetBackValidators_sorts:
  assumes "\<forall>p\<in>set hh. \<exists>x. valAddress (heap h) p = Inr x"
  shows "\<exists>hs. SetBackValidators h hh = Inr (h\<lparr>Back := hs\<rparr>) \<and>
           SetBackValidators (OnStart h) hh = Inr ((OnStart h)\<lparr>Back := hs\<rparr>) \<and>
           mset hs = mset hh \<and> addressSorted (heap h) hs"
proof -
  from assms have "\<exists>hs. insertionSort (heap h) [] hh = Inr hs \<and> mset hs = mset [] + mset hh \<and>
           sorted_wrt (\<lambda>p q. Less (heap h) q p = Inr False) hs"
    by (intro insertionSort_sorted) auto
  then obtain hs where hs: "insertionSort (heap h) [] hh = Inr hs" "mset hs = mset hh"
      "sorted_wrt (\<lambda>p q. Less (heap h) q p = Inr False) hs"
    by auto
  from hs(2) have "set hs = set hh"
    by (metis set_mset_mset)
  with assms have "None \<notin> set hs"
    by (auto simp: valAddress_def)
  with hs(3) have "addressSorted (heap h) hs"
    by (simp add: addressSorted_def)
  moreover have "heap (OnStart h) = heap h"
    by (simp add: OnStart_def)
  ultimately show ?thesis
    using hs(1,2) by (auto simp: SetBackValidators_def sort_Sort_def)
qed

theorem SetBackValidators_sorts_witness:
  "SetBackValidators standby [Some 2, Some 0, Some 1] =
     Inr (standby\<lparr>Back := [Some 0, Some 1, Some 2]\<rparr>) \<and>
   (\<exists>hs. SetBackValidators (OnStart standby) [Some 2, Some 0, Some 1] =
            Inr ((OnStart standby)\<lparr>Back := hs\<rparr>) \<and>
         mset hs = mset [Some 2, Some 0, Some 1] \<and> addressSorted (heap standby) hs)"
proof -
  have "\<forall>p\<in>set [Some 2, Some 0, Some 1]. \<exists>x. valAddress (heap standby) p = Inr x"
    by (simp add: valAddress_def standby_def scene_defs)
  from SetBackValidators_sorts [OF this]
  have "\<exists>hs. SetBackValidators (OnStart standby) [Some 2, Some 0, Some 1] =
            Inr ((OnStart standby)\<lparr>Back := hs\<rparr>) \<and>
         mset hs = mset [Some 2, Some 0, Some 1] \<and> addressSorted (heap standby) hs"
    by blast
  moreover have "SetBackValidators standby [Some 2, Some 0, Some 1] =
     Inr (standby\<lparr>Back := [Some 0, Some 1, Some 2]\<rparr>)"
    by (simp add: SetBackValidators_def sort_Sort_def Less_def valAddress_def
        bytes_Compare_def standby_def scene_defs)
  ultimately show ?thesis
    by blast
qed

subsection \<open>Requests in an execution\<close>

text \<open>
  The separation of active set and pool, which the next theorem assumes, is needed:
  when the pool holds A's own record, a successful outcome that names A as candidate
  sets A back to Used, and the next tick posts a second request for A.
\<close>

lemma shared_record_two_requests:
  "\<not> separate shared \<and>
   (\<exists>h'. run shared
      [TickEv [''A''],
       ResultEv (Some \<lparr>Remove = Some 1, Add = Some 0, Resion = [], from' = 1\<rparr>),
       TickEv [''A'']] =
    Inr ([\<lparr>Remove = Some 0, Add = None, Resion = ''Switch'', from' = 0\<rparr>,
          \<lparr>Remove = Some 0, Add = None, Resion = ''Switch'', from' = 0\<rparr>], h'))"
proof
  show "\<not> separate shared"
    by (simp add: separate_def shared_def manager_def)
next
  show "\<exists>h'. run shared
      [TickEv [''A''],
       ResultEv (Some \<lparr>Remove = Some 1, Add = Some 0, Resion = [], from' = 1\<rparr>),
       TickEv [''A'']] =
    Inr ([\<lparr>Remove = Some 0, Add = None, Resion = ''Switch'', from' = 0\<rparr>,
          \<lparr>Remove = Some 0, Add = None, Resion = ''Switch'', from' = 0\<rparr>], h')"
    by (simp add: shared_def checkSwitchValidator_def pickUnuseValidator_def switchResult_def
        switchSuccess_def Health_String_def valAddress_def setState_def HealthOut_def
        scene_defs)
qed

text \<open>
  Claim C5. Take an execution from a manager whose active set and pool are separate.
  Every request posted at a step of it names a record of the active set that was Used
  before the step, is Switching after it and has then a tick over \<open>HealthOut\<close> = 600;
  and no two requests of the whole execution name the same record, so that a record
  has at most one request, pending or not.
\<close>

theorem requests_over_threshold_once:
  assumes "separate h" and "run h es = Inr (out, h')"
  shows "distinct (map Remove out) \<and>
         (\<forall>pre e post out1 h1 out2 h2.
            es = pre @ e # post \<and> run h pre = Inr (out1, h1) \<and> fire h1 e = Inr (out2, h2) \<longrightarrow>
            (\<forall>sv\<in>set out2. \<exists>a. Remove sv = Some a \<and> (\<exists>k. Work h k = Some (Some a)) \<and>
                 State (heap h1 a) = StateUsed \<and> State (heap h2 a) = StateSwitching \<and>
                 HealthOut < sint (Tick (heap h2 a))))"
proof (intro conjI allI impI)
  from run_requests [OF assms(2,1)] show "distinct (map Remove out)"
    by blast
next
  fix pre e post out1 h1 out2 h2
  assume a: "es = pre @ e # post \<and> run h pre = Inr (out1, h1) \<and> fire h1 e = Inr (out2, h2)"
  then have p: "run h pre = Inr (out1, h1)" and f: "fire h1 e = Inr (out2, h2)"
    by simp_all
  from run_frame [OF p assms(1)] have sep1: "separate h1" and w: "Work h1 = Work h"
    by simp_all
  from fire_step [OF f sep1]
  have "\<forall>sv\<in>set out2. \<exists>a. Remove sv = Some a \<and> (\<exists>k. Work h1 k = Some (Some a)) \<and>
                 State (heap h1 a) = StateUsed \<and> State (heap h2 a) = StateSwitching \<and>
                 HealthOut < sint (Tick (heap h2 a))"
    by blast
  then show "\<forall>sv\<in>set out2. \<exists>a. Remove sv = Some a \<and> (\<exists>k. Work h k = Some (Some a)) \<and>
                 State (heap h1 a) = StateUsed \<and> State (heap h2 a) = StateSwitching \<and>
                 HealthOut < sint (Tick (heap h2 a))"
    by (simp only: w)
qed

theorem requests_over_threshold_once_witness:
  "separate silent \<and>
   (\<exists>h'. run silent twoTicks =
      Inr ([\<lparr>Remove = Some 2, Add = Some 3, Resion = ''Switch'', from' = 0\<rparr>,
            \<lparr>Remove = Some 1, Add = Some 4, Resion = ''Switch'', from' = 0\<rparr>], h')) \<and>
   distinct (map Remove
      [\<lparr>Remove = Some 2, Add = Some 3, Resion = ''Switch'', from' = 0\<rparr>,
       \<lparr>Remove = Some 1, Add = Some 4, Resion = ''Switch'', from' = 0\<rparr>]) \<and>
   (\<exists>h2. fire silent (TickEv [''A'', ''B'', ''C'']) =
      Inr ([\<lparr>Remove = Some 2, Add = Some 3, Resion = ''Switch'', from' = 0\<rparr>], h2) \<and>
      State (heap silent 2) = StateUsed \<and> State (heap h2 2) = StateSwitching \<and>
      HealthOut < sint (Tick (heap h2 2)))"
proof -
  let ?c = "\<lparr>Remove = Some 2, Add = Some 3, Resion = ''Switch'', from' = 0\<rparr>"
  let ?b = "\<lparr>Remove = Some 1, Add = Some 4, Resion = ''Switch'', from' = 0\<rparr>"
  have sep: "separate silent"
    by (simp add: separate_def silent_def manager_def)
  have "\<exists>h'. run silent twoTicks = Inr ([?c, ?b], h')"
    by (simp add: twoTicks_def rejected_def silent_def checkSwitchValidator_def
        pickUnuseValidator_def switchResult_def Health_String_def valAddress_def Update_defs
        setState_def HealthOut_def scene_defs)
  then obtain h' where r: "run silent twoTicks = Inr ([?c, ?b], h')"
    by blast
  have "\<exists>h2. fire silent (TickEv [''A'', ''B'', ''C'']) = Inr ([?c], h2)"
    by (simp add: silent_def checkSwitchValidator_def pickUnuseValidator_def
        setState_def HealthOut_def scene_defs)
  then obtain h2 where f: "fire silent (TickEv [''A'', ''B'', ''C'']) = Inr ([?c], h2)"
    by blast
  note main = requests_over_threshold_once [OF sep r]
  from main have d: "distinct (map Remove [?c, ?b])"
    by blast
  have split: "twoTicks =
      [] @ TickEv [''A'', ''B'', ''C''] # [ResultEv (Some rejected), UpdateEv ''A'',
        TickEv [''C'', ''B'', ''A'']]"
    by (simp add: twoTicks_def)
  have start: "run silent [] = Inr ([], silent)"
    by simp
  from main split start f
  have "\<forall>sv\<in>set [?c]. \<exists>a. Remove sv = Some a \<and> (\<exists>k. Work silent k = Some (Some a)) \<and>
          State (heap silent a) = StateUsed \<and> State (heap h2 a) = StateSwitching \<and>
          HealthOut < sint (Tick (heap h2 a))"
    by blast
  then have "State (heap silent 2) = StateUsed \<and> State (heap h2 2) = StateSwitching \<and>
      HealthOut < sint (Tick (heap h2 2))"
    by simp
  with sep r d f show ?thesis
    by blast
qed

subsection \<open>The bytes a heartbeat is signed over\<close>







end
